theory Spec2Isabelle
  imports Main "HOL-Library.Word"
begin

section \<open>Wire constants and errors\<close>

type_synonym byte = "8 word"

definition IAC :: byte where "IAC = 255"
definition GA :: byte where "GA = 249"
definition SB :: byte where "SB = 250"
definition SE :: byte where "SE = 240"
definition WILL :: byte where "WILL = 251"
definition WONT :: byte where "WONT = 252"
definition DO :: byte where "DO = 253"
definition DONT :: byte where "DONT = 254"
definition OPT_COMPRESS2 :: byte where "OPT_COMPRESS2 = 86"

lemmas wire_defs =
  IAC_def GA_def SB_def SE_def WILL_def WONT_def DO_def DONT_def OPT_COMPRESS2_def

text \<open>
  The errors a call of \<open>Read\<close> can return: the package's own \<open>errCorrupted\<close>, the
  errors of the standard library's buffered reader (\<open>io.EOF\<close>, \<open>io.ErrNoProgress\<close>),
  and any other failure of the transport or of the zlib reader, named by its message.
\<close>

datatype error = errCorrupted | EOF | ErrNoProgress | IOError string

section \<open>The transport and the buffered reader\<close>

text \<open>
  The transport is an \<open>io.ReadWriter\<close> outside the repository. Its read side is a
  script: the results of the successive calls of its \<open>Read\<close>, each a chunk of bytes
  together with an optional error; a chunk longer than the caller's slice is delivered
  in pieces, and a transport whose script is used up is at its end (\<open>io.EOF\<close>). Its
  write side is the list of the outcomes of the coming \<open>Write\<close> calls (none left means
  success) and the bytes written so far.
\<close>

type_synonym read_result = "byte list \<times> error option"

record transport =
  reads :: "read_result list"
  writes :: "error option list"
  written :: "byte list"

text \<open>
  What a \<open>bufio.Reader\<close> reads from: the decoder's own transport (shared with
  \<open>wrapped\<close>), or a zlib reader, given by the results its \<open>Read\<close> calls will return.
\<close>

datatype source = Wrapped | ZReader "read_result list"

record bufio_Reader =
  rd :: source
  buf :: "byte list"
  err :: "error option"

record internalDataReader =
  wrapped :: transport
  buffered :: bufio_Reader

definition defaultBufSize :: nat where "defaultBufSize = 4096"
definition maxConsecutiveEmptyReads :: nat where "maxConsecutiveEmptyReads = 100"

definition bufio_NewReader :: "source \<Rightarrow> bufio_Reader" where
  "bufio_NewReader s = \<lparr>rd = s, buf = [], err = None\<rparr>"

definition newDataReader :: "transport \<Rightarrow> internalDataReader" where
  "newDataReader rw = \<lparr>wrapped = rw, buffered = bufio_NewReader Wrapped\<rparr>"

fun script_Read :: "nat \<Rightarrow> read_result list \<Rightarrow> read_result \<times> read_result list" where
  "script_Read k [] = (([], Some EOF), [])"
| "script_Read k ((bs, e) # rest) =
     (if length bs \<le> k then ((bs, e), rest)
      else ((take k bs, None), (drop k bs, e) # rest))"

text \<open>One \<open>Read\<close> of the reader under \<open>buffered\<close>, into a slice of \<open>k\<close> bytes.\<close>

definition rd_Read :: "nat \<Rightarrow> internalDataReader \<Rightarrow> read_result \<times> internalDataReader" where
  "rd_Read k r =
     (case rd (buffered r) of
        Wrapped \<Rightarrow>
          (case script_Read k (reads (wrapped r)) of
             (res, rest) \<Rightarrow> (res, r\<lparr>wrapped := (wrapped r)\<lparr>reads := rest\<rparr>\<rparr>))
      | ZReader s \<Rightarrow>
          (case script_Read k s of
             (res, rest) \<Rightarrow> (res, r\<lparr>buffered := (buffered r)\<lparr>rd := ZReader rest\<rparr>\<rparr>)))"

text \<open>
  \<open>bufio.Reader.fill\<close>: reads into the free part of the buffer, at most
  \<open>maxConsecutiveEmptyReads\<close> times while the reads are empty and without error; an
  error of the read is kept in \<open>err\<close>. \<open>ReadByte\<close>, \<open>Peek(1)\<close> and \<open>Discard\<close> call it
  on an empty buffer only, so the buffer is never full there.
\<close>

fun fill_loop :: "nat \<Rightarrow> internalDataReader \<Rightarrow> internalDataReader" where
  "fill_loop 0 r = r\<lparr>buffered := (buffered r)\<lparr>err := Some ErrNoProgress\<rparr>\<rparr>"
| "fill_loop (Suc i) r =
     (case rd_Read (defaultBufSize - length (buf (buffered r))) r of
        ((bs, e), r1) \<Rightarrow>
          (let r2 = r1\<lparr>buffered := (buffered r1)\<lparr>buf := buf (buffered r1) @ bs\<rparr>\<rparr> in
           case e of
             Some x \<Rightarrow> r2\<lparr>buffered := (buffered r2)\<lparr>err := Some x\<rparr>\<rparr>
           | None \<Rightarrow> if bs \<noteq> [] then r2 else fill_loop i r2))"

definition fill :: "internalDataReader \<Rightarrow> internalDataReader" where
  "fill r = fill_loop maxConsecutiveEmptyReads r"

definition Buffered :: "internalDataReader \<Rightarrow> nat" where
  "Buffered r = length (buf (buffered r))"

lemma fill_loop_progress:
  "buf (buffered (fill_loop i r)) \<noteq> [] \<or> err (buffered (fill_loop i r)) \<noteq> None"
  by (induction i arbitrary: r) (auto split: prod.splits option.splits simp: Let_def)

lemma fill_progress:
  "buf (buffered r) = [] \<Longrightarrow> err (buffered (fill r)) = None \<Longrightarrow> buf (buffered (fill r)) \<noteq> []"
  using fill_loop_progress [of maxConsecutiveEmptyReads r] by (simp add: fill_def)

text \<open>
  \<open>ReadByte\<close>: while the buffer is empty, return the pending error (and clear it) or
  fill; then take the first byte.
\<close>

function ReadByte :: "internalDataReader \<Rightarrow> (error + byte) \<times> internalDataReader" where
  "ReadByte r =
     (case buf (buffered r) of
        [] \<Rightarrow>
          (case err (buffered r) of
             Some e \<Rightarrow> (Inl e, r\<lparr>buffered := (buffered r)\<lparr>err := None\<rparr>\<rparr>)
           | None \<Rightarrow> ReadByte (fill r))
      | c # cs \<Rightarrow> (Inr c, r\<lparr>buffered := (buffered r)\<lparr>buf := cs\<rparr>\<rparr>))"
  by pat_completeness auto
termination
proof (relation "measure (\<lambda>r. if buf (buffered r) = [] \<and> err (buffered r) = None then 1 else 0)")
  show "wf (measure (\<lambda>r. if buf (buffered r) = [] \<and> err (buffered r) = None then 1 else 0))"
    by simp
next
  fix r :: internalDataReader
  assume "buf (buffered r) = []" "err (buffered r) = None"
  then show "(fill r, r) \<in> measure (\<lambda>r. if buf (buffered r) = [] \<and> err (buffered r) = None then 1 else 0)"
    using fill_progress [of r] by auto
qed

text \<open>
  \<open>Peek(1)\<close>, the only use of \<open>Peek\<close> in the decoder: the first buffered byte, left in
  the buffer; when none can be had, the pending error (cleared).
\<close>

function Peek1 :: "internalDataReader \<Rightarrow> (error + byte) \<times> internalDataReader" where
  "Peek1 r =
     (case buf (buffered r) of
        [] \<Rightarrow>
          (case err (buffered r) of
             Some e \<Rightarrow> (Inl e, r\<lparr>buffered := (buffered r)\<lparr>err := None\<rparr>\<rparr>)
           | None \<Rightarrow> Peek1 (fill r))
      | c # cs \<Rightarrow> (Inr c, r))"
  by pat_completeness auto
termination
proof (relation "measure (\<lambda>r. if buf (buffered r) = [] \<and> err (buffered r) = None then 1 else 0)")
  show "wf (measure (\<lambda>r. if buf (buffered r) = [] \<and> err (buffered r) = None then 1 else 0))"
    by simp
next
  fix r :: internalDataReader
  assume "buf (buffered r) = []" "err (buffered r) = None"
  then show "(fill r, r) \<in> measure (\<lambda>r. if buf (buffered r) = [] \<and> err (buffered r) = None then 1 else 0)"
    using fill_progress [of r] by auto
qed

text \<open>
  \<open>Discard(n)\<close> for \<open>n > 0\<close>: skips buffered bytes, filling when the buffer is empty,
  until \<open>n\<close> bytes are skipped or the reader has an error. The decoder ignores the
  count, so only the error is returned.
\<close>

function Discard :: "nat \<Rightarrow> internalDataReader \<Rightarrow> error option \<times> internalDataReader" where
  "Discard remain r =
     (let r1 = (if buf (buffered r) = [] then fill r else r);
          skip = min (length (buf (buffered r1))) remain;
          r2 = r1\<lparr>buffered := (buffered r1)\<lparr>buf := drop skip (buf (buffered r1))\<rparr>\<rparr>
      in if remain - skip = 0 then (None, r2)
         else (case err (buffered r2) of
                 Some e \<Rightarrow> (Some e, r2\<lparr>buffered := (buffered r2)\<lparr>err := None\<rparr>\<rparr>)
               | None \<Rightarrow> Discard (remain - skip) r2))"
  by pat_completeness auto
termination
proof (relation "measure (\<lambda>(remain, r). remain)")
  show "wf (measure (\<lambda>(remain, r). remain))"
    by simp
next
  fix remain :: nat and r r1 r2 :: internalDataReader and skip :: nat
  assume r1: "r1 = (if buf (buffered r) = [] then fill r else r)"
    and skip: "skip = min (length (buf (buffered r1))) remain"
    and r2: "r2 = r1\<lparr>buffered := (buffered r1)\<lparr>buf := drop skip (buf (buffered r1))\<rparr>\<rparr>"
    and more: "remain - skip \<noteq> 0"
    and noerr: "err (buffered r2) = None"
  have "buf (buffered r1) \<noteq> []"
    using r1 r2 noerr fill_progress [of r] by (auto split: if_splits)
  with skip more have "0 < skip" by (cases "buf (buffered r1)") auto
  with more show "((remain - skip, r2), (remain, r)) \<in> measure (\<lambda>(remain, r). remain)"
    by simp
qed

declare ReadByte.simps [simp del] Peek1.simps [simp del] Discard.simps [simp del]

section \<open>The decoder\<close>

text \<open>
  \<open>zlib.NewReader\<close> is outside the repository: a parameter. Given what is pending on
  the transport's raw read side, it answers with an error or with the zlib reader (the
  results its \<open>Read\<close> calls will return), and with what it leaves pending on the
  transport.
\<close>

type_synonym zlib_NewReader = "read_result list \<Rightarrow> (error + read_result list) \<times> read_result list"

text \<open>\<open>r.wrapped.Write\<close>: the next outcome of the write script; a failed write adds nothing.\<close>

definition wrapped_Write :: "byte list \<Rightarrow> internalDataReader \<Rightarrow> error option \<times> internalDataReader" where
  "wrapped_Write bs r =
     (case writes (wrapped r) of
        [] \<Rightarrow> (None, r\<lparr>wrapped := (wrapped r)\<lparr>written := written (wrapped r) @ bs\<rparr>\<rparr>)
      | None # rest \<Rightarrow>
          (None, r\<lparr>wrapped := (wrapped r)\<lparr>writes := rest, written := written (wrapped r) @ bs\<rparr>\<rparr>)
      | Some e # rest \<Rightarrow> (Some e, r\<lparr>wrapped := (wrapped r)\<lparr>writes := rest\<rparr>\<rparr>))"

definition handleOption :: "byte \<Rightarrow> internalDataReader \<Rightarrow> error option \<times> internalDataReader" where
  "handleOption opt r =
     (if opt = OPT_COMPRESS2 then wrapped_Write [IAC, DO, opt] r
      else wrapped_Write [IAC, DONT, opt] r)"

text \<open>
  The inner \<open>for\<close> of \<open>case SB\<close> (lines 145 to 191). It has no condition, and each of
  its \<open>break\<close> statements stands inside \<open>switch b2\<close>, so leaves the switch and not the
  loop: the loop ends only at a \<open>return n, err\<close>. Its result is therefore the error
  returned and the reader then; \<open>None\<close> when it runs forever. \<open>Peek1\<close> did not consume
  the \<open>SB\<close> byte, which is the first byte the loop reads. The two tests of the peeked
  byte, \<open>IAC == peeked[0]\<close> and \<open>SE == peeked[0]\<close>, exclude each other and are written
  as one chain.
\<close>

partial_function (option) SB_scan ::
  "zlib_NewReader \<Rightarrow> internalDataReader \<Rightarrow> (error \<times> internalDataReader) option" where
  "SB_scan Z r =
     (case ReadByte r of
        (Inl e, r1) \<Rightarrow> Some (e, r1)
      | (Inr b2, r1) \<Rightarrow>
          if b2 = IAC then
            (case Peek1 r1 of
               (Inl e, r2) \<Rightarrow> Some (e, r2)
             | (Inr p, r2) \<Rightarrow>
                 if p = IAC then
                   (case Discard 1 r2 of
                      (Some e, r3) \<Rightarrow> Some (e, r3)
                    | (None, r3) \<Rightarrow> SB_scan Z r3)
                 else if p = SE then
                   (case Discard 1 r2 of
                      (Some e, r3) \<Rightarrow> Some (e, r3)
                    | (None, r3) \<Rightarrow> SB_scan Z r3)
                 else SB_scan Z r2)
          else if b2 = OPT_COMPRESS2 then
            (case ReadByte r1 of
               (Inl e, r2) \<Rightarrow> Some (e, r2)
             | (Inr _, r2) \<Rightarrow>
                 (case ReadByte r2 of
                    (Inl e, r3) \<Rightarrow> Some (e, r3)
                  | (Inr _, r3) \<Rightarrow>
                      (case Z (reads (wrapped r3)) of
                         (Inl e, raw) \<Rightarrow> Some (e, r3\<lparr>wrapped := (wrapped r3)\<lparr>reads := raw\<rparr>\<rparr>)
                       | (Inr zReader, raw) \<Rightarrow>
                           SB_scan Z (r3\<lparr>wrapped := (wrapped r3)\<lparr>reads := raw\<rparr>,
                                          buffered := bufio_NewReader (ZReader zReader)\<rparr>))))
          else SB_scan Z r1)"


declare SB_scan.simps [code]

subsection \<open>Bytes left in the source: the measure of the main loop\<close>

definition pending :: "internalDataReader \<Rightarrow> read_result list" where
  "pending r = (case rd (buffered r) of Wrapped \<Rightarrow> reads (wrapped r) | ZReader s \<Rightarrow> s)"

definition source_bytes :: "internalDataReader \<Rightarrow> nat" where
  "source_bytes r =
     length (buf (buffered r)) + sum_list (map (\<lambda>x. length (fst x)) (pending r))"

lemma pending_buffered [simp]:
  "rd b = rd (buffered r) \<Longrightarrow> pending (r\<lparr>buffered := b\<rparr>) = pending r"
  by (simp add: pending_def split: source.splits)

lemma pending_wrapped [simp]:
  "reads w = reads (wrapped r) \<Longrightarrow> pending (r\<lparr>wrapped := w\<rparr>) = pending r"
  by (simp add: pending_def split: source.splits)

lemma script_Read_bytes:
  "script_Read k s = ((bs, e), rest) \<Longrightarrow>
   length bs + sum_list (map (\<lambda>x. length (fst x)) rest) = sum_list (map (\<lambda>x. length (fst x)) s)"
  by (cases s) (auto split: if_splits)

lemma rd_Read_bytes:
  "rd_Read k r = ((bs, e), r1) \<Longrightarrow>
   buf (buffered r1) = buf (buffered r) \<and> source_bytes r1 + length bs = source_bytes r"
  by (auto simp: rd_Read_def source_bytes_def pending_def split: source.splits prod.splits dest: script_Read_bytes)

lemma fill_loop_bytes: "source_bytes (fill_loop i r) = source_bytes r"
proof (induction i arbitrary: r)
  case 0
  show ?case by (simp add: source_bytes_def)
next
  case (Suc i)
  obtain bs e r1 where rr: "rd_Read (defaultBufSize - length (buf (buffered r))) r = ((bs, e), r1)"
    by (metis prod.exhaust)
  from rd_Read_bytes [OF rr] have b: "buf (buffered r1) = buf (buffered r)"
    and s: "source_bytes r1 + length bs = source_bytes r" by simp_all
  let ?r2 = "r1\<lparr>buffered := (buffered r1)\<lparr>buf := buf (buffered r1) @ bs\<rparr>\<rparr>"
  have r2: "source_bytes ?r2 = source_bytes r"
    using s by (simp add: source_bytes_def)
  show ?case
  proof (cases e)
    case None
    then show ?thesis using rr r2 s Suc.IH [of ?r2] Suc.IH [of r1] by (auto simp: Let_def)
  next
    case (Some x)
    then show ?thesis using rr r2 by (simp add: Let_def source_bytes_def)
  qed
qed

lemma fill_bytes: "source_bytes (fill r) = source_bytes r"
  by (simp add: fill_def fill_loop_bytes)

lemma ReadByte_bytes:
  "ReadByte r = (res, r') \<Longrightarrow>
   source_bytes r' + (case res of Inl _ \<Rightarrow> 0 | Inr _ \<Rightarrow> 1) = source_bytes r"
proof (induction r rule: ReadByte.induct)
  case (1 r)
  show ?case
  proof (cases "buf (buffered r)")
    case Nil
    show ?thesis
    proof (cases "err (buffered r)")
      case None
      with Nil "1.prems" have "ReadByte (fill r) = (res, r')"
        by (subst (asm) ReadByte.simps) simp
      with "1.IH" Nil None show ?thesis by (simp add: fill_bytes)
    next
      case (Some e)
      with Nil "1.prems" show ?thesis
        by (subst (asm) ReadByte.simps) (auto simp: source_bytes_def)
    qed
  next
    case (Cons c cs)
    with "1.prems" show ?thesis
      by (subst (asm) ReadByte.simps) (auto simp: source_bytes_def)
  qed
qed

lemma Peek1_bytes: "Peek1 r = (res, r') \<Longrightarrow> source_bytes r' = source_bytes r"
proof (induction r rule: Peek1.induct)
  case (1 r)
  show ?case
  proof (cases "buf (buffered r)")
    case Nil
    show ?thesis
    proof (cases "err (buffered r)")
      case None
      with Nil "1.prems" have "Peek1 (fill r) = (res, r')"
        by (subst (asm) Peek1.simps) simp
      with "1.IH" Nil None show ?thesis by (simp add: fill_bytes)
    next
      case (Some e)
      with Nil "1.prems" show ?thesis
        by (subst (asm) Peek1.simps) (auto simp: source_bytes_def)
    qed
  next
    case (Cons c cs)
    with "1.prems" show ?thesis
      by (subst (asm) Peek1.simps) (auto simp: source_bytes_def)
  qed
qed

lemma Discard_bytes: "Discard k r = (res, r') \<Longrightarrow> source_bytes r' \<le> source_bytes r"
proof (induction k r rule: Discard.induct)
  case (1 remain r)
  define r1 where "r1 = (if buf (buffered r) = [] then fill r else r)"
  define skip where "skip = min (length (buf (buffered r1))) remain"
  define r2 where "r2 = r1\<lparr>buffered := (buffered r1)\<lparr>buf := drop skip (buf (buffered r1))\<rparr>\<rparr>"
  have b1: "source_bytes r1 = source_bytes r" by (simp add: r1_def fill_bytes)
  have b2: "source_bytes r2 \<le> source_bytes r1" by (simp add: r2_def source_bytes_def)
  have unf: "Discard remain r =
      (if remain - skip = 0 then (None, r2)
       else (case err (buffered r2) of
               Some e \<Rightarrow> (Some e, r2\<lparr>buffered := (buffered r2)\<lparr>err := None\<rparr>\<rparr>)
             | None \<Rightarrow> Discard (remain - skip) r2))"
    by (subst Discard.simps) (simp only: Let_def r1_def skip_def r2_def)
  show ?case
  proof (cases "remain - skip = 0")
    case True
    with unf "1.prems" b1 b2 show ?thesis by simp
  next
    case False
    show ?thesis
    proof (cases "err (buffered r2)")
      case None
      with False unf "1.prems" have "Discard (remain - skip) r2 = (res, r')" by simp
      with "1.IH" [OF r1_def skip_def r2_def False None] b1 b2 show ?thesis by simp
    next
      case (Some e)
      with False unf "1.prems" b1 b2 show ?thesis by (auto simp: source_bytes_def)
    qed
  qed
qed

lemma handleOption_bytes: "handleOption opt r = (res, r') \<Longrightarrow> source_bytes r' = source_bytes r"
  by (auto simp: handleOption_def wrapped_Write_def source_bytes_def split: list.splits option.splits if_splits)


lemma ReadByte_less: "(Inr b, r') = ReadByte r \<Longrightarrow> source_bytes r' < source_bytes r"
  using ReadByte_bytes [of r "Inr b" r'] by simp

lemma Peek1_same: "(res, r') = Peek1 r \<Longrightarrow> source_bytes r' = source_bytes r"
  using Peek1_bytes [of r res r'] by simp

lemma Discard_le: "(res, r') = Discard k r \<Longrightarrow> source_bytes r' \<le> source_bytes r"
  using Discard_bytes [of k r res r'] by simp

lemma handleOption_same: "(res, r') = handleOption opt r \<Longrightarrow> source_bytes r' = source_bytes r"
  using handleOption_bytes [of opt r res r'] by simp

subsection \<open>Read\<close>

text \<open>
  The outcome of \<open>Read\<close>: the count \<open>n\<close>, the error, the caller's slice \<open>data\<close> and the
  reader afterwards. The slice \<open>p\<close> of the source is \<open>data[n:]\<close> throughout, so
  \<open>len(p) > 0\<close> is \<open>n < length data\<close> and \<open>p[0] = b\<close> writes \<open>data[n]\<close>.
\<close>

type_synonym read_outcome = "nat \<times> error option \<times> byte list \<times> internalDataReader"

function Read_loop ::
  "zlib_NewReader \<Rightarrow> internalDataReader \<Rightarrow> byte list \<Rightarrow> nat \<Rightarrow> read_outcome option" where
  "Read_loop Z r data n =
     (if \<not> n < length data then Some (n, None, data, r)
      else if 0 < n \<and> Buffered r < 1 then Some (n, None, data, r)
      else
        (case ReadByte r of
           (Inl e, r1) \<Rightarrow> Some (n, Some e, data, r1)
         | (Inr b, r1) \<Rightarrow>
             if b = IAC then
               (case Peek1 r1 of
                  (Inl e, r2) \<Rightarrow> Some (n, Some e, data, r2)
                | (Inr p, r2) \<Rightarrow>
                    if p = DO \<or> p = DONT then
                      (case Discard 2 r2 of
                         (Some e, r3) \<Rightarrow> Some (n, Some e, data, r3)
                       | (None, r3) \<Rightarrow> Read_loop Z r3 data n)
                    else if p = WILL \<or> p = WONT then
                      (case Discard 1 r2 of
                         (Some e, r3) \<Rightarrow> Some (n, Some e, data, r3)
                       | (None, r3) \<Rightarrow>
                           (case Peek1 r3 of
                              (Inl e, r4) \<Rightarrow> Some (n, Some e, data, r4)
                            | (Inr opt, r4) \<Rightarrow>
                                (case handleOption opt r4 of
                                   (Some e, r5) \<Rightarrow> Some (n, Some e, data, r5)
                                 | (None, r5) \<Rightarrow>
                                     (case Discard 1 r5 of
                                        (Some e, r6) \<Rightarrow> Some (n, Some e, data, r6)
                                      | (None, r6) \<Rightarrow> Read_loop Z r6 data n))))
                    else if p = IAC then
                      (case Discard 1 r2 of
                         (Some e, r3) \<Rightarrow> Some (Suc n, Some e, data[n := IAC], r3)
                       | (None, r3) \<Rightarrow> Read_loop Z r3 (data[n := IAC]) (Suc n))
                    else if p = SB then
                      (case SB_scan Z r2 of
                         None \<Rightarrow> None
                       | Some (e, r3) \<Rightarrow> Some (n, Some e, data, r3))
                    else if p = SE then
                      (case Discard 1 r2 of
                         (Some e, r3) \<Rightarrow> Some (n, Some e, data, r3)
                       | (None, r3) \<Rightarrow> Read_loop Z r3 data n)
                    else if p = GA then
                      (case Discard 1 r2 of
                         (Some e, r3) \<Rightarrow> Some (n, Some e, data, r3)
                       | (None, r3) \<Rightarrow> Read_loop Z r3 data n)
                    else Some (n, Some errCorrupted, data, r2))
             else Read_loop Z r1 (data[n := b]) (Suc n)))"
  by pat_completeness auto
termination
  by (relation "measure (\<lambda>(Z, r, data, n). source_bytes r)")
     (auto dest!: ReadByte_less Peek1_same Discard_le handleOption_same)

definition Read :: "zlib_NewReader \<Rightarrow> internalDataReader \<Rightarrow> byte list \<Rightarrow> read_outcome option" where
  "Read Z r data = Read_loop Z r data 0"

declare Read_loop.simps [simp del]

section \<open>What the reader still has to deliver\<close>

text \<open>
  The bytes a reader will deliver if nothing fails: the buffered ones, then those of
  the coming reads. A reader is \<open>plain\<close> when nothing but data is ahead: no error is
  held back in the buffered reader, and every coming read brings bytes and no error.
  \<open>same_writes\<close>: nothing was written to the transport between two readers.
\<close>

definition stream :: "internalDataReader \<Rightarrow> byte list" where
  "stream r = buf (buffered r) @ concat (map fst (pending r))"

definition plain :: "internalDataReader \<Rightarrow> bool" where
  "plain r \<longleftrightarrow>
     err (buffered r) = None \<and> list_all (\<lambda>x. fst x \<noteq> [] \<and> snd x = None) (pending r)"

definition same_writes :: "internalDataReader \<Rightarrow> internalDataReader \<Rightarrow> bool" where
  "same_writes r r' \<longleftrightarrow>
     writes (wrapped r') = writes (wrapped r) \<and> written (wrapped r') = written (wrapped r)"

text \<open>
  TELNET escaping as the comment on \<open>internalDataReader\<close> gives it: every byte 255 of
  the data is put twice.
\<close>

fun escape :: "byte list \<Rightarrow> byte list" where
  "escape [] = []"
| "escape (b # bs) = (if b = IAC then [IAC, IAC] else [b]) @ escape bs"

text \<open>
  Decoding a whole stream through \<open>Read\<close>, as a caller does: \<open>Read\<close> into a slice of
  \<open>k\<close> bytes, keep \<open>data[:n]\<close>, and again until a call returns an error. The fuel
  bounds the number of calls; \<open>None\<close> when it is used up or a call does not return.
\<close>

fun ReadAll ::
  "zlib_NewReader \<Rightarrow> nat \<Rightarrow> nat \<Rightarrow> internalDataReader \<Rightarrow>
   (byte list \<times> error \<times> internalDataReader) option" where
  "ReadAll Z k 0 r = None"
| "ReadAll Z k (Suc fuel) r =
     (case Read Z r (replicate k 0) of
        None \<Rightarrow> None
      | Some (n, Some e, d, r') \<Rightarrow> Some (take n d, e, r')
      | Some (n, None, d, r') \<Rightarrow>
          (case ReadAll Z k fuel r' of
             None \<Rightarrow> None
           | Some (out, e, r'') \<Rightarrow> Some (take n d @ out, e, r'')))"

text \<open>
  An outcome stays within the caller's slice, counted from \<open>n\<close>: the count has not
  gone down and does not pass the length, the slice keeps its length, and it is
  unchanged from the count on and below \<open>n\<close>.
\<close>

definition within :: "nat \<Rightarrow> byte list \<Rightarrow> read_outcome option \<Rightarrow> bool" where
  "within n data res \<longleftrightarrow>
     (case res of
        None \<Rightarrow> True
      | Some (n', e, d', r') \<Rightarrow>
          n \<le> n' \<and> n' \<le> length data \<and> length d' = length data \<and>
          drop n' d' = drop n' data \<and> take n d' = take n data)"

section \<open>The buffered reader on plain streams\<close>

lemma same_writes_refl [simp]: "same_writes r r"
  by (simp add: same_writes_def)

lemma same_writes_trans: "same_writes r r1 \<Longrightarrow> same_writes r1 r2 \<Longrightarrow> same_writes r r2"
  by (simp add: same_writes_def)

lemma rd_Read_pending:
  "rd_Read k r = (res, r1) \<Longrightarrow>
   script_Read k (pending r) = (res, pending r1) \<and> buf (buffered r1) = buf (buffered r) \<and>
   err (buffered r1) = err (buffered r) \<and> same_writes r r1"
  by (auto simp: rd_Read_def pending_def same_writes_def split: source.splits prod.splits)

lemma fill_unfold:
  "fill r =
     (case rd_Read (defaultBufSize - length (buf (buffered r))) r of
        ((bs, e), r1) \<Rightarrow>
          (let r2 = r1\<lparr>buffered := (buffered r1)\<lparr>buf := buf (buffered r1) @ bs\<rparr>\<rparr> in
           case e of
             Some x \<Rightarrow> r2\<lparr>buffered := (buffered r2)\<lparr>err := Some x\<rparr>\<rparr>
           | None \<Rightarrow> if bs \<noteq> [] then r2 else fill_loop 99 r2))"
proof -
  have "fill r = fill_loop (Suc 99) r"
    by (simp add: fill_def maxConsecutiveEmptyReads_def)
  then show ?thesis by (simp only: fill_loop.simps)
qed

lemma plain_empty_stream:
  "plain r \<Longrightarrow> stream r = [] \<longleftrightarrow> buf (buffered r) = [] \<and> pending r = []"
  by (cases "pending r") (auto simp: plain_def stream_def)

lemma fill_plain:
  assumes "plain r" and "buf (buffered r) = []" and "stream r \<noteq> []"
  shows "plain (fill r) \<and> stream (fill r) = stream r \<and> buf (buffered (fill r)) \<noteq> [] \<and>
         same_writes r (fill r)"
proof -
  from assms obtain bs rest where p: "pending r = (bs, None) # rest" and bs: "bs \<noteq> []"
    and rest: "list_all (\<lambda>x. fst x \<noteq> [] \<and> snd x = None) rest"
    by (cases "pending r") (auto simp: plain_def stream_def)
  obtain res r1 where rr: "rd_Read (defaultBufSize - length (buf (buffered r))) r = (res, r1)"
    by (cases "rd_Read (defaultBufSize - length (buf (buffered r))) r")
  from rd_Read_pending [OF rr] assms(2) p
  have sr: "script_Read defaultBufSize ((bs, None) # rest) = (res, pending r1)"
    and b1: "buf (buffered r1) = []" and e1: "err (buffered r1) = err (buffered r)"
    and w1: "same_writes r r1" by simp_all
  let ?r2 = "\<lambda>x. r1\<lparr>buffered := (buffered r1)\<lparr>buf := x\<rparr>\<rparr>"
  show ?thesis
  proof (cases "length bs \<le> defaultBufSize")
    case True
    with sr have res: "res = (bs, None)" and p1: "pending r1 = rest" by simp_all
    have f: "fill r = ?r2 bs"
      using rr res bs b1 by (simp add: fill_unfold Let_def)
    show ?thesis
      using f p1 e1 w1 bs rest assms(1,2) p
      by (simp add: plain_def stream_def same_writes_def)
  next
    case False
    with sr have res: "res = (take defaultBufSize bs, None)"
      and p1: "pending r1 = (drop defaultBufSize bs, None) # rest" by simp_all
    have nz: "take defaultBufSize bs \<noteq> []" using bs by (simp add: defaultBufSize_def)
    have f: "fill r = ?r2 (take defaultBufSize bs)"
      using rr res nz b1 by (simp add: fill_unfold Let_def)
    show ?thesis
      using f p1 e1 w1 nz rest assms(1,2) p False
      by (simp add: plain_def stream_def same_writes_def)
  qed
qed

lemma fill_eof:
  assumes "plain r" and "stream r = []"
  shows "fill r = r\<lparr>buffered := (buffered r)\<lparr>err := Some EOF\<rparr>\<rparr>"
proof -
  from assms have b: "buf (buffered r) = []" and p: "pending r = []"
    by (simp_all add: plain_empty_stream)
  obtain res r1 where rr: "rd_Read (defaultBufSize - length (buf (buffered r))) r = (res, r1)"
    by (cases "rd_Read (defaultBufSize - length (buf (buffered r))) r")
  have r1: "r1 = r" and res: "res = ([], Some EOF)"
    using rr p by (auto simp: rd_Read_def pending_def split: source.splits prod.splits)
  show ?thesis using rr r1 res b by (simp add: fill_unfold Let_def)
qed

lemma ReadByte_plain:
  assumes "plain r" and "stream r = c # s"
  shows "\<exists>r'. ReadByte r = (Inr c, r') \<and> plain r' \<and> stream r' = s \<and> same_writes r r'"
proof (cases "buf (buffered r)")
  case Nil
  with assms have f: "plain (fill r)" "stream (fill r) = c # s" "buf (buffered (fill r)) \<noteq> []"
    "same_writes r (fill r)"
    using fill_plain [of r] by simp_all
  then obtain cs where b: "buf (buffered (fill r)) = c # cs"
    by (cases "buf (buffered (fill r))") (auto simp: stream_def)
  have "ReadByte r = ReadByte (fill r)"
    using Nil assms(1) by (subst ReadByte.simps) (simp add: plain_def)
  also have "\<dots> = (Inr c, (fill r)\<lparr>buffered := (buffered (fill r))\<lparr>buf := cs\<rparr>\<rparr>)"
    using b by (subst ReadByte.simps) simp
  finally show ?thesis
    using f b by (auto simp: plain_def stream_def same_writes_def)
next
  case (Cons c' cs)
  with assms(2) have c: "c' = c" by (simp add: stream_def)
  have "ReadByte r = (Inr c, r\<lparr>buffered := (buffered r)\<lparr>buf := cs\<rparr>\<rparr>)"
    using Cons c by (subst ReadByte.simps) simp
  then show ?thesis
    using assms Cons c by (auto simp: plain_def stream_def same_writes_def)
qed

lemma ReadByte_eof:
  assumes "plain r" and "stream r = []"
  shows "ReadByte r = (Inl EOF, r)"
proof -
  from assms have b: "buf (buffered r) = []" and e: "err (buffered r) = None"
    by (simp_all add: plain_empty_stream plain_def)
  have "ReadByte r = ReadByte (fill r)"
    using b e by (subst ReadByte.simps) simp
  also have "\<dots> = (Inl EOF, r)"
    using b e by (subst ReadByte.simps) (simp add: fill_eof [OF assms])
  finally show ?thesis .
qed

lemma Peek1_plain:
  assumes "plain r" and "stream r = c # s"
  shows "\<exists>r'. Peek1 r = (Inr c, r') \<and> plain r' \<and> stream r' = c # s \<and>
              buf (buffered r') \<noteq> [] \<and> same_writes r r'"
proof (cases "buf (buffered r)")
  case Nil
  with assms have f: "plain (fill r)" "stream (fill r) = c # s" "buf (buffered (fill r)) \<noteq> []"
    "same_writes r (fill r)"
    using fill_plain [of r] by simp_all
  then obtain cs where b: "buf (buffered (fill r)) = c # cs"
    by (cases "buf (buffered (fill r))") (auto simp: stream_def)
  have "Peek1 r = Peek1 (fill r)"
    using Nil assms(1) by (subst Peek1.simps) (simp add: plain_def)
  also have "\<dots> = (Inr c, fill r)"
    using b by (subst Peek1.simps) simp
  finally show ?thesis using f by auto
next
  case (Cons c' cs)
  with assms(2) have c: "c' = c" by (simp add: stream_def)
  have "Peek1 r = (Inr c, r)"
    using Cons c by (subst Peek1.simps) simp
  then show ?thesis using assms Cons by auto
qed

lemma Peek1_eof:
  assumes "plain r" and "stream r = []"
  shows "Peek1 r = (Inl EOF, r)"
proof -
  from assms have b: "buf (buffered r) = []" and e: "err (buffered r) = None"
    by (simp_all add: plain_empty_stream plain_def)
  have "Peek1 r = Peek1 (fill r)"
    using b e by (subst Peek1.simps) simp
  also have "\<dots> = (Inl EOF, r)"
    using b e by (subst Peek1.simps) (simp add: fill_eof [OF assms])
  finally show ?thesis .
qed


lemma Discard_plain:
  "plain r \<Longrightarrow> 0 < k \<Longrightarrow> k \<le> length (stream r) \<Longrightarrow>
   \<exists>r'. Discard k r = (None, r') \<and> plain r' \<and> stream r' = drop k (stream r) \<and> same_writes r r'"
proof (induction k r rule: Discard.induct)
  case (1 remain r)
  define r1 where "r1 = (if buf (buffered r) = [] then fill r else r)"
  define skip where "skip = min (length (buf (buffered r1))) remain"
  define r2 where "r2 = r1\<lparr>buffered := (buffered r1)\<lparr>buf := drop skip (buf (buffered r1))\<rparr>\<rparr>"
  from "1.prems" have ne: "stream r \<noteq> []" by auto
  have p1: "plain r1 \<and> stream r1 = stream r \<and> buf (buffered r1) \<noteq> [] \<and> same_writes r r1"
    using fill_plain [OF "1.prems"(1) _ ne] "1.prems"(1) by (simp add: r1_def)
  have sk: "0 < skip" "skip \<le> remain" "skip \<le> length (buf (buffered r1))"
    using p1 "1.prems"(2) by (simp_all add: skip_def)
  have "stream r2 = drop skip (stream r1)"
    using sk by (simp add: r2_def stream_def)
  then have p2: "plain r2" "stream r2 = drop skip (stream r)" "same_writes r r2"
    using p1 by (auto simp: r2_def plain_def same_writes_def)
  have unf: "Discard remain r =
      (if remain - skip = 0 then (None, r2)
       else (case err (buffered r2) of
               Some e \<Rightarrow> (Some e, r2\<lparr>buffered := (buffered r2)\<lparr>err := None\<rparr>\<rparr>)
             | None \<Rightarrow> Discard (remain - skip) r2))"
    by (subst Discard.simps) (simp only: Let_def r1_def skip_def r2_def)
  show ?case
  proof (cases "remain - skip = 0")
    case True
    with sk have "skip = remain" by simp
    with unf True p2 show ?thesis by simp
  next
    case False
    have e2: "err (buffered r2) = None" using p2(1) by (simp add: plain_def)
    from False "1.prems"(3) p2(2) have le: "remain - skip \<le> length (stream r2)" by simp
    from False have pos: "0 < remain - skip" by simp
    from "1.IH" [OF r1_def skip_def r2_def False e2 p2(1) pos le]
    obtain r' where r': "Discard (remain - skip) r2 = (None, r')" "plain r'"
      "stream r' = drop (remain - skip) (stream r2)" "same_writes r2 r'" by blast
    have "drop (remain - skip) (drop skip (stream r)) = drop remain (stream r)"
      using sk by simp
    with r' p2 unf False e2 show ?thesis
      by (auto intro: same_writes_trans)
  qed
qed

lemma handleOption_ok:
  assumes "writes (wrapped r) = [] \<or> hd (writes (wrapped r)) = None"
  shows "handleOption opt r =
     (None, r\<lparr>wrapped := (wrapped r)\<lparr>writes := tl (writes (wrapped r)),
        written := written (wrapped r) @ [IAC, if opt = OPT_COMPRESS2 then DO else DONT, opt]\<rparr>\<rparr>)"
  using assms
  by (cases "writes (wrapped r)") (auto simp: handleOption_def wrapped_Write_def)

section \<open>The main loop on plain streams\<close>

lemma step_data:
  assumes "plain r" and "stream r = c # s" and "c \<noteq> IAC"
    and "n < length data" and "n = 0 \<or> buf (buffered r) \<noteq> []"
  shows "\<exists>r'. Read_loop Z r data n = Read_loop Z r' (data[n := c]) (Suc n) \<and>
              plain r' \<and> stream r' = s \<and> same_writes r r'"
proof -
  from ReadByte_plain [OF assms(1,2)] obtain r1 where
    r1: "ReadByte r = (Inr c, r1)" "plain r1" "stream r1 = s" "same_writes r r1" by blast
  have "Read_loop Z r data n = Read_loop Z r1 (data[n := c]) (Suc n)"
    using assms(3-5) r1(1) by (subst Read_loop.simps) (auto simp: Buffered_def)
  with r1 show ?thesis by blast
qed

lemma step_escape:
  assumes "plain r" and "stream r = IAC # IAC # s"
    and "n < length data" and "n = 0 \<or> buf (buffered r) \<noteq> []"
  shows "\<exists>r'. Read_loop Z r data n = Read_loop Z r' (data[n := IAC]) (Suc n) \<and>
              plain r' \<and> stream r' = s \<and> same_writes r r'"
proof -
  from ReadByte_plain [OF assms(1,2)] obtain r1 where
    r1: "ReadByte r = (Inr IAC, r1)" "plain r1" "stream r1 = IAC # s" "same_writes r r1" by blast
  from Peek1_plain [OF r1(2,3)] obtain r2 where
    r2: "Peek1 r1 = (Inr IAC, r2)" "plain r2" "stream r2 = IAC # s" "same_writes r1 r2" by blast
  from Discard_plain [OF r2(2), of 1] r2(3) obtain r3 where
    r3: "Discard 1 r2 = (None, r3)" "plain r3" "stream r3 = s" "same_writes r2 r3" by auto
  have "Read_loop Z r data n = Read_loop Z r3 (data[n := IAC]) (Suc n)"
    using assms(3,4) r1(1) r2(1) r3(1)
    by (subst Read_loop.simps) (auto simp: Buffered_def wire_defs)
  with r1 r2 r3 show ?thesis by (blast intro: same_writes_trans)
qed

lemma step_DO_DONT:
  assumes "plain r" and "stream r = IAC # c # opt # s" and "c = DO \<or> c = DONT"
    and "n < length data" and "n = 0 \<or> buf (buffered r) \<noteq> []"
  shows "\<exists>r'. Read_loop Z r data n = Read_loop Z r' data n \<and>
              plain r' \<and> stream r' = s \<and> same_writes r r'"
proof -
  from ReadByte_plain [OF assms(1,2)] obtain r1 where
    r1: "ReadByte r = (Inr IAC, r1)" "plain r1" "stream r1 = c # opt # s" "same_writes r r1"
    by blast
  from Peek1_plain [OF r1(2,3)] obtain r2 where
    r2: "Peek1 r1 = (Inr c, r2)" "plain r2" "stream r2 = c # opt # s" "same_writes r1 r2"
    by blast
  from Discard_plain [OF r2(2), of 2] r2(3) obtain r3 where
    r3: "Discard 2 r2 = (None, r3)" "plain r3" "stream r3 = s" "same_writes r2 r3" by auto
  have "Read_loop Z r data n = Read_loop Z r3 data n"
    using assms(3-5) r1(1) r2(1) r3(1)
    by (subst Read_loop.simps) (auto simp: Buffered_def wire_defs)
  with r1 r2 r3 show ?thesis by (blast intro: same_writes_trans)
qed

lemma step_WILL_WONT:
  assumes "plain r" and "stream r = IAC # c # opt # s" and "c = WILL \<or> c = WONT"
    and "writes (wrapped r) = [] \<or> hd (writes (wrapped r)) = None"
    and "n < length data" and "n = 0 \<or> buf (buffered r) \<noteq> []"
  shows "\<exists>r'. Read_loop Z r data n = Read_loop Z r' data n \<and>
              plain r' \<and> stream r' = s \<and>
              written (wrapped r') =
                written (wrapped r) @ [IAC, if opt = OPT_COMPRESS2 then DO else DONT, opt] \<and>
              writes (wrapped r') = tl (writes (wrapped r))"
proof -
  from ReadByte_plain [OF assms(1,2)] obtain r1 where
    r1: "ReadByte r = (Inr IAC, r1)" "plain r1" "stream r1 = c # opt # s" "same_writes r r1"
    by blast
  from Peek1_plain [OF r1(2,3)] obtain r2 where
    r2: "Peek1 r1 = (Inr c, r2)" "plain r2" "stream r2 = c # opt # s" "same_writes r1 r2"
    by blast
  from Discard_plain [OF r2(2), of 1] r2(3) obtain r3 where
    r3: "Discard 1 r2 = (None, r3)" "plain r3" "stream r3 = opt # s" "same_writes r2 r3" by auto
  from Peek1_plain [OF r3(2,3)] obtain r4 where
    r4: "Peek1 r3 = (Inr opt, r4)" "plain r4" "stream r4 = opt # s" "same_writes r3 r4"
    by blast
  have w4: "same_writes r r4"
    using r1(4) r2(4) r3(4) r4(4) by (blast intro: same_writes_trans)
  define r5 where "r5 = r4\<lparr>wrapped := (wrapped r4)\<lparr>writes := tl (writes (wrapped r4)),
        written := written (wrapped r4) @ [IAC, if opt = OPT_COMPRESS2 then DO else DONT, opt]\<rparr>\<rparr>"
  have h: "handleOption opt r4 = (None, r5)"
    unfolding r5_def using assms(4) w4 by (intro handleOption_ok) (simp add: same_writes_def)
  have p5: "plain r5" "stream r5 = opt # s"
    using r4(2,3) by (simp_all add: r5_def plain_def stream_def)
  from Discard_plain [OF p5(1), of 1] p5(2) obtain r6 where
    r6: "Discard 1 r5 = (None, r6)" "plain r6" "stream r6 = s" "same_writes r5 r6" by auto
  have "Read_loop Z r data n = Read_loop Z r6 data n"
    using assms(3,5,6) r1(1) r2(1) r3(1) r4(1) h r6(1)
    by (subst Read_loop.simps) (auto simp: Buffered_def wire_defs)
  moreover have "written (wrapped r6) =
      written (wrapped r) @ [IAC, if opt = OPT_COMPRESS2 then DO else DONT, opt]"
    and "writes (wrapped r6) = tl (writes (wrapped r))"
    using r6(4) w4 by (simp_all add: r5_def same_writes_def)
  ultimately show ?thesis using r6 by blast
qed

lemma step_corrupted:
  assumes "plain r" and "stream r = IAC # x # s"
    and "x \<notin> {DO, DONT, WILL, WONT, IAC, SB, SE, GA}"
    and "n < length data" and "n = 0 \<or> buf (buffered r) \<noteq> []"
  shows "\<exists>r'. Read_loop Z r data n = Some (n, Some errCorrupted, data, r') \<and>
              plain r' \<and> stream r' = x # s \<and> same_writes r r'"
proof -
  from ReadByte_plain [OF assms(1,2)] obtain r1 where
    r1: "ReadByte r = (Inr IAC, r1)" "plain r1" "stream r1 = x # s" "same_writes r r1"
    by blast
  from Peek1_plain [OF r1(2,3)] obtain r2 where
    r2: "Peek1 r1 = (Inr x, r2)" "plain r2" "stream r2 = x # s" "same_writes r1 r2"
    by blast
  have "Read_loop Z r data n = Some (n, Some errCorrupted, data, r2)"
    using assms(3-5) r1(1) r2(1)
    by (subst Read_loop.simps) (auto simp: Buffered_def)
  with r1 r2 show ?thesis by (blast intro: same_writes_trans)
qed

lemma Read_loop_done: "\<not> n < length data \<Longrightarrow> Read_loop Z r data n = Some (n, None, data, r)"
  by (subst Read_loop.simps) simp

lemma Read_loop_drained:
  "0 < n \<Longrightarrow> buf (buffered r) = [] \<Longrightarrow> Read_loop Z r data n = Some (n, None, data, r)"
  by (subst Read_loop.simps) (simp add: Buffered_def)

lemma Read_loop_unescape:
  "plain r \<Longrightarrow> stream r = escape S \<Longrightarrow> n \<le> length data \<Longrightarrow> 0 < n \<or> S \<noteq> [] \<Longrightarrow>
   \<exists>m r'. Read_loop Z r data n =
             Some (n + m, None, take n data @ take m S @ drop (n + m) data, r') \<and>
           m \<le> length S \<and> n + m \<le> length data \<and> (0 < n + m \<or> data = []) \<and>
           plain r' \<and> stream r' = escape (drop m S) \<and> same_writes r r'"
proof (induction S arbitrary: r data n)
  case Nil
  then have n: "0 < n" and b: "buf (buffered r) = []" by (simp_all add: stream_def)
  have "Read_loop Z r data n = Some (n, None, data, r)"
    using n b by (rule Read_loop_drained)
  with Nil n show ?case by (intro exI [of _ 0] exI [of _ r]) simp
next
  case (Cons c S)
  show ?case
  proof (cases "n < length data \<and> (n = 0 \<or> buf (buffered r) \<noteq> [])")
    case False
    then have "Read_loop Z r data n = Some (n, None, data, r)"
      using Read_loop_done [of n data Z r] Read_loop_drained [of n r Z data] by auto
    moreover from False Cons.prems(3) have "0 < n \<or> data = []" by auto
    ultimately show ?thesis
      using Cons.prems by (intro exI [of _ 0] exI [of _ r]) simp
  next
    case True
    then have lt: "n < length data" and g: "n = 0 \<or> buf (buffered r) \<noteq> []" by simp_all
    have "\<exists>r1. Read_loop Z r data n = Read_loop Z r1 (data[n := c]) (Suc n) \<and>
            plain r1 \<and> stream r1 = escape S \<and> same_writes r r1"
    proof (cases "c = IAC")
      case True
      with Cons.prems(2) have "stream r = IAC # IAC # escape S" by simp
      from step_escape [OF Cons.prems(1) this lt g, of Z] True show ?thesis by simp
    next
      case False
      with Cons.prems(2) have "stream r = c # escape S" by simp
      from step_data [OF Cons.prems(1) this False lt g, of Z] show ?thesis .
    qed
    then obtain r1 where r1: "Read_loop Z r data n = Read_loop Z r1 (data[n := c]) (Suc n)"
      "plain r1" "stream r1 = escape S" "same_writes r r1" by blast
    from lt have "Suc n \<le> length (data[n := c])" by simp
    from Cons.IH [OF r1(2,3) this] obtain m r' where
      m: "Read_loop Z r1 (data[n := c]) (Suc n) =
            Some (Suc n + m, None,
                  take (Suc n) (data[n := c]) @ take m S @ drop (Suc n + m) (data[n := c]), r')"
        "m \<le> length S" "Suc n + m \<le> length (data[n := c])"
        "plain r'" "stream r' = escape (drop m S)" "same_writes r1 r'"
      by auto
    have t: "take (Suc n) (data[n := c]) = take n data @ [c]"
      using lt by (simp add: take_Suc_conv_app_nth)
    have d: "drop (Suc n + m) (data[n := c]) = drop (Suc n + m) data" by simp
    have "Read_loop Z r data n =
        Some (n + Suc m, None, take n data @ take (Suc m) (c # S) @ drop (n + Suc m) data, r')"
      using r1(1) m(1) t d by simp
    with m r1(4) show ?thesis
      by (intro exI [of _ "Suc m"] exI [of _ r']) (auto intro: same_writes_trans)
  qed
qed

lemma Read_unescape:
  assumes "plain r" and "stream r = escape S" and "S \<noteq> []" and "data \<noteq> []"
  shows "\<exists>m r'. Read Z r data = Some (m, None, take m S @ drop m data, r') \<and>
           0 < m \<and> m \<le> length S \<and> m \<le> length data \<and>
           plain r' \<and> stream r' = escape (drop m S) \<and> same_writes r r'"
  using Read_loop_unescape [OF assms(1,2), of 0 data Z] assms(3,4)
  by (auto simp: Read_def)

lemma Read_eof:
  assumes "plain r" and "stream r = []" and "data \<noteq> []"
  shows "Read Z r data = Some (0, Some EOF, data, r)"
  using assms unfolding Read_def
  by (subst Read_loop.simps) (simp add: ReadByte_eof)

lemma ReadAll_unescape:
  "plain r \<Longrightarrow> stream r = escape S \<Longrightarrow> 0 < k \<Longrightarrow> length S < fuel \<Longrightarrow>
   \<exists>r'. ReadAll Z k fuel r = Some (S, EOF, r') \<and> same_writes r r'"
proof (induction fuel arbitrary: S r)
  case 0
  then show ?case by simp
next
  case (Suc fuel)
  let ?data = "replicate k (0 :: byte)"
  have ne: "?data \<noteq> []" using Suc.prems(3) by simp
  show ?case
  proof (cases "S = []")
    case True
    with Suc.prems have "Read Z r ?data = Some (0, Some EOF, ?data, r)"
      by (intro Read_eof ne) simp_all
    with True show ?thesis by simp
  next
    case False
    from Read_unescape [OF Suc.prems(1,2) False ne, of Z] obtain m r1 where
      m: "Read Z r ?data = Some (m, None, take m S @ drop m ?data, r1)"
        "0 < m" "m \<le> length S" "plain r1" "stream r1 = escape (drop m S)" "same_writes r r1"
      by blast
    from m(2,3) False Suc.prems(4) have "length (drop m S) < fuel" by (cases S) auto
    from Suc.IH [OF m(4,5) Suc.prems(3) this] obtain r' where
      r': "ReadAll Z k fuel r1 = Some (drop m S, EOF, r')" "same_writes r1 r'" by blast
    have "take m (take m S @ drop m ?data) = take m S" using m(3) by simp
    with m(1) r'(1) have "ReadAll Z k (Suc fuel) r = Some (take m S @ drop m S, EOF, r')"
      by simp
    with m(6) r'(2) show ?thesis by (auto intro: same_writes_trans)
  qed
qed

subsection \<open>One iteration of the main loop, branch by branch\<close>

lemma iter_ReadByte_error:
  "n < length data \<Longrightarrow> n = 0 \<or> 0 < Buffered r \<Longrightarrow> ReadByte r = (Inl e, r1) \<Longrightarrow>
   Read_loop Z r data n = Some (n, Some e, data, r1)"
  by (subst Read_loop.simps) auto

lemma iter_data:
  "n < length data \<Longrightarrow> n = 0 \<or> 0 < Buffered r \<Longrightarrow> ReadByte r = (Inr b, r1) \<Longrightarrow> b \<noteq> IAC \<Longrightarrow>
   Read_loop Z r data n = Read_loop Z r1 (data[n := b]) (Suc n)"
  by (subst Read_loop.simps) auto

lemma iter_Peek_error:
  "n < length data \<Longrightarrow> n = 0 \<or> 0 < Buffered r \<Longrightarrow> ReadByte r = (Inr IAC, r1) \<Longrightarrow>
   Peek1 r1 = (Inl e, r2) \<Longrightarrow>
   Read_loop Z r data n = Some (n, Some e, data, r2)"
  by (subst Read_loop.simps) auto

lemma iter_DO_DONT:
  "n < length data \<Longrightarrow> n = 0 \<or> 0 < Buffered r \<Longrightarrow> ReadByte r = (Inr IAC, r1) \<Longrightarrow>
   Peek1 r1 = (Inr p, r2) \<Longrightarrow> p = DO \<or> p = DONT \<Longrightarrow> Discard 2 r2 = (res, r3) \<Longrightarrow>
   Read_loop Z r data n =
     (case res of Some e \<Rightarrow> Some (n, Some e, data, r3) | None \<Rightarrow> Read_loop Z r3 data n)"
  by (subst Read_loop.simps) (auto split: option.splits)

lemma iter_WILL_WONT:
  "n < length data \<Longrightarrow> n = 0 \<or> 0 < Buffered r \<Longrightarrow> ReadByte r = (Inr IAC, r1) \<Longrightarrow>
   Peek1 r1 = (Inr p, r2) \<Longrightarrow> p = WILL \<or> p = WONT \<Longrightarrow>
   Read_loop Z r data n =
     (case Discard 1 r2 of
        (Some e, r3) \<Rightarrow> Some (n, Some e, data, r3)
      | (None, r3) \<Rightarrow>
          (case Peek1 r3 of
             (Inl e, r4) \<Rightarrow> Some (n, Some e, data, r4)
           | (Inr opt, r4) \<Rightarrow>
               (case handleOption opt r4 of
                  (Some e, r5) \<Rightarrow> Some (n, Some e, data, r5)
                | (None, r5) \<Rightarrow>
                    (case Discard 1 r5 of
                       (Some e, r6) \<Rightarrow> Some (n, Some e, data, r6)
                     | (None, r6) \<Rightarrow> Read_loop Z r6 data n))))"
  by (subst Read_loop.simps) (auto simp: wire_defs)

lemma iter_IAC:
  "n < length data \<Longrightarrow> n = 0 \<or> 0 < Buffered r \<Longrightarrow> ReadByte r = (Inr IAC, r1) \<Longrightarrow>
   Peek1 r1 = (Inr IAC, r2) \<Longrightarrow> Discard 1 r2 = (res, r3) \<Longrightarrow>
   Read_loop Z r data n =
     (case res of Some e \<Rightarrow> Some (Suc n, Some e, data[n := IAC], r3)
      | None \<Rightarrow> Read_loop Z r3 (data[n := IAC]) (Suc n))"
  by (subst Read_loop.simps) (auto simp: wire_defs split: option.splits)

lemma iter_SB:
  "n < length data \<Longrightarrow> n = 0 \<or> 0 < Buffered r \<Longrightarrow> ReadByte r = (Inr IAC, r1) \<Longrightarrow>
   Peek1 r1 = (Inr SB, r2) \<Longrightarrow>
   Read_loop Z r data n =
     (case SB_scan Z r2 of None \<Rightarrow> None | Some (e, r3) \<Rightarrow> Some (n, Some e, data, r3))"
  by (subst Read_loop.simps) (auto simp: wire_defs)

lemma iter_SE_GA:
  "n < length data \<Longrightarrow> n = 0 \<or> 0 < Buffered r \<Longrightarrow> ReadByte r = (Inr IAC, r1) \<Longrightarrow>
   Peek1 r1 = (Inr p, r2) \<Longrightarrow> p = SE \<or> p = GA \<Longrightarrow> Discard 1 r2 = (res, r3) \<Longrightarrow>
   Read_loop Z r data n =
     (case res of Some e \<Rightarrow> Some (n, Some e, data, r3) | None \<Rightarrow> Read_loop Z r3 data n)"
  by (subst Read_loop.simps) (auto simp: wire_defs split: option.splits)

lemma iter_corrupted:
  "n < length data \<Longrightarrow> n = 0 \<or> 0 < Buffered r \<Longrightarrow> ReadByte r = (Inr IAC, r1) \<Longrightarrow>
   Peek1 r1 = (Inr p, r2) \<Longrightarrow> p \<notin> {DO, DONT, WILL, WONT, IAC, SB, SE, GA} \<Longrightarrow>
   Read_loop Z r data n = Some (n, Some errCorrupted, data, r2)"
  by (subst Read_loop.simps) auto

subsection \<open>The count and the caller's slice\<close>

lemma within_None [simp]: "within n data None"
  by (simp add: within_def)

lemma within_same [simp]: "n \<le> length data \<Longrightarrow> within n data (Some (n, e, data, r))"
  by (simp add: within_def)

lemma within_written [simp]:
  "n < length data \<Longrightarrow> within n data (Some (Suc n, e, data[n := b], r))"
  by (simp add: within_def)

lemma within_Suc:
  "within (Suc n) (data[n := b]) res \<Longrightarrow> n < length data \<Longrightarrow> within n data res"
proof (cases res)
  case None
  then show ?thesis by simp
next
  case (Some t)
  obtain n' e d' r' where t: "t = (n', e, d', r')" by (cases t)
  assume w: "within (Suc n) (data[n := b]) res" and lt: "n < length data"
  from w Some t have a: "Suc n \<le> n'" "n' \<le> length data" "length d' = length data"
    "drop n' d' = drop n' (data[n := b])" "take (Suc n) d' = take (Suc n) (data[n := b])"
    by (simp_all add: within_def)
  from a(5) have "take n (take (Suc n) d') = take n (take (Suc n) (data[n := b]))" by simp
  then have "take n d' = take n data" by (simp add: min_def)
  moreover from a(1,4) have "drop n' d' = drop n' data" by simp
  ultimately show ?thesis using a Some t by (simp add: within_def)
qed

lemma Read_loop_within: "n \<le> length data \<Longrightarrow> within n data (Read_loop Z r data n)"
proof (induction Z r data n rule: Read_loop.induct)
  case (1 Z r data n)
  note le = "1.prems"
  show ?case
  proof (cases "n < length data \<and> (n = 0 \<or> 0 < Buffered r)")
    case False
    then have "Read_loop Z r data n = Some (n, None, data, r)"
      by (subst Read_loop.simps) auto
    with le show ?thesis by simp
  next
    case True
    then have lt: "n < length data" and g: "n = 0 \<or> 0 < Buffered r" by simp_all
    from g have g': "\<not> (0 < n \<and> Buffered r < 1)" by auto
    from lt have nn: "\<not> \<not> n < length data" by simp
    have ih1: "within n data (Read_loop Z yb data n)"
      if a: "ReadByte r = (Inr IAC, y)" and b: "Peek1 y = (Inr ba, ya)"
        and c: "ba = DO \<or> ba = DONT" and d: "Discard 2 ya = (None, yb)" for y ya ba yb
      by (rule "1.IH"(1) [OF nn g' a [symmetric] refl refl b [symmetric] refl c
            d [symmetric] refl le])
    have ih2: "within n data (Read_loop Z ye data n)"
      if a: "ReadByte r = (Inr IAC, y)" and b: "Peek1 y = (Inr ba, ya)"
        and c: "\<not> (ba = DO \<or> ba = DONT)" and c': "ba = WILL \<or> ba = WONT"
        and d: "Discard 1 ya = (None, yb)" and e: "Peek1 yb = (Inr bb, yc)"
        and f: "handleOption bb yc = (None, yd)" and h: "Discard 1 yd = (None, ye)"
      for y ya ba yb yc bb yd ye
      by (rule "1.IH"(2) [OF nn g' a [symmetric] refl refl b [symmetric] refl c c'
            d [symmetric] refl e [symmetric] refl f [symmetric] refl h [symmetric] refl le])
    have c1: "\<not> (IAC = DO \<or> IAC = DONT)" and c2: "\<not> (IAC = WILL \<or> IAC = WONT)"
      by (simp_all add: wire_defs)
    from lt have le3: "Suc n \<le> length (data[n := IAC])" by simp
    have ih3: "within n data (Read_loop Z yb (data[n := IAC]) (Suc n))"
      if a: "ReadByte r = (Inr IAC, y)" and b: "Peek1 y = (Inr IAC, ya)"
        and d: "Discard 1 ya = (None, yb)" for y ya yb
      by (rule within_Suc [where b = IAC, OF _ lt])
         (rule "1.IH"(3) [OF nn g' a [symmetric] refl refl b [symmetric] refl c1 c2 refl
            d [symmetric] refl le3])
    have ih4: "within n data (Read_loop Z yb data n)"
      if a: "ReadByte r = (Inr IAC, y)" and b: "Peek1 y = (Inr SE, ya)"
        and d: "Discard 1 ya = (None, yb)" for y ya yb
    proof -
      have "\<not> (SE = DO \<or> SE = DONT)" "\<not> (SE = WILL \<or> SE = WONT)" "SE \<noteq> IAC" "SE \<noteq> SB"
        by (simp_all add: wire_defs)
      then show ?thesis
        by (intro "1.IH"(4) [OF nn g' a [symmetric] refl refl b [symmetric] refl _ _ _ _ refl
              d [symmetric] refl le])
    qed
    have ih5: "within n data (Read_loop Z yb data n)"
      if a: "ReadByte r = (Inr IAC, y)" and b: "Peek1 y = (Inr GA, ya)"
        and d: "Discard 1 ya = (None, yb)" for y ya yb
    proof -
      have "\<not> (GA = DO \<or> GA = DONT)" "\<not> (GA = WILL \<or> GA = WONT)" "GA \<noteq> IAC" "GA \<noteq> SB"
        "GA \<noteq> SE"
        by (simp_all add: wire_defs)
      then show ?thesis
        by (intro "1.IH"(5) [OF nn g' a [symmetric] refl refl b [symmetric] refl _ _ _ _ _ refl
              d [symmetric] refl le])
    qed
    have ih6: "within n data (Read_loop Z y (data[n := b]) (Suc n))"
      if a: "ReadByte r = (Inr b, y)" and b: "b \<noteq> IAC" for b y
    proof -
      from lt have "Suc n \<le> length (data[n := b])" by simp
      from "1.IH"(6) [OF nn g' a [symmetric] refl b this]
      show ?thesis by (rule within_Suc [OF _ lt])
    qed
    obtain x r1 where rb: "ReadByte r = (x, r1)" by (cases "ReadByte r")
    show ?thesis
    proof (cases x)
      case (Inl e)
      with iter_ReadByte_error [OF lt g, of e r1 Z] rb le show ?thesis by simp
    next
      case (Inr b)
      show ?thesis
      proof (cases "b = IAC")
        case False
        with iter_data [OF lt g, of b r1 Z] rb Inr ih6 [of b r1] show ?thesis by simp
      next
        case True
        with rb Inr have rb': "ReadByte r = (Inr IAC, r1)" by simp
        obtain xa r2 where pk: "Peek1 r1 = (xa, r2)" by (cases "Peek1 r1")
        show ?thesis
        proof (cases xa)
          case (Inl e)
          with iter_Peek_error [OF lt g rb', of e r2 Z] pk le show ?thesis by simp
        next
          case (Inr p)
          with pk have pk': "Peek1 r1 = (Inr p, r2)" by simp
          consider (dodont) "p = DO \<or> p = DONT" | (will) "p = WILL \<or> p = WONT"
            | (iac) "p = IAC" | (sb) "p = SB" | (sega) "p = SE \<or> p = GA"
            | (bad) "p \<notin> {DO, DONT, WILL, WONT, IAC, SB, SE, GA}" by auto
          then show ?thesis
          proof cases
            case dodont
            obtain res r3 where d: "Discard 2 r2 = (res, r3)" by (cases "Discard 2 r2")
            show ?thesis
              using iter_DO_DONT [OF lt g rb' pk' dodont d, of Z] ih1 [OF rb' pk' dodont] d le
              by (cases res) simp_all
          next
            case will
            then have nd: "\<not> (p = DO \<or> p = DONT)" by (auto simp: wire_defs)
            note eq = iter_WILL_WONT [OF lt g rb' pk' will, of Z]
            obtain a r3 where d1: "Discard 1 r2 = (a, r3)" by (cases "Discard 1 r2")
            show ?thesis
            proof (cases a)
              case (Some e)
              with eq d1 le show ?thesis by simp
            next
              case None
              obtain xb r4 where p2: "Peek1 r3 = (xb, r4)" by (cases "Peek1 r3")
              show ?thesis
              proof (cases xb)
                case (Inl e)
                with eq d1 None p2 le show ?thesis by simp
              next
                case (Inr opt)
                obtain c r5 where h: "handleOption opt r4 = (c, r5)"
                  by (cases "handleOption opt r4")
                show ?thesis
                proof (cases c)
                  case (Some e)
                  with eq d1 None p2 Inr h le show ?thesis by simp
                next
                  case hNone: None
                  obtain d r6 where d2: "Discard 1 r5 = (d, r6)" by (cases "Discard 1 r5")
                  show ?thesis
                  proof (cases d)
                    case (Some e)
                    with eq d1 None p2 Inr h hNone d2 le show ?thesis by simp
                  next
                    case dNone: None
                    have "within n data (Read_loop Z r6 data n)"
                      using ih2 [OF rb' pk' nd will, of r3 opt r4 r5 r6]
                        d1 None p2 Inr h hNone d2 dNone by simp
                    with eq d1 None p2 Inr h hNone d2 dNone show ?thesis by simp
                  qed
                qed
              qed
            qed
          next
            case iac
            obtain res r3 where d: "Discard 1 r2 = (res, r3)" by (cases "Discard 1 r2")
            show ?thesis
              using iter_IAC [OF lt g rb' pk' [unfolded iac] d, of Z]
                ih3 [OF rb' pk' [unfolded iac]] d lt
              by (cases res) simp_all
          next
            case sb
            show ?thesis
              using iter_SB [OF lt g rb' pk' [unfolded sb], of Z] le
              by (cases "SB_scan Z r2") auto
          next
            case sega
            obtain res r3 where d: "Discard 1 r2 = (res, r3)" by (cases "Discard 1 r2")
            have "within n data (Read_loop Z r3 data n)" if "res = None"
              using sega ih4 [of r1 r2 r3] ih5 [of r1 r2 r3] rb' pk' d that by auto
            then show ?thesis
              using iter_SE_GA [OF lt g rb' pk' sega d, of Z] le
              by (cases res) simp_all
          next
            case bad
            with iter_corrupted [OF lt g rb' pk', of Z] le show ?thesis by simp
          qed
        qed
      qed
    qed
  qed
qed

subsection \<open>Errors of the transport\<close>




subsection \<open>The announcement of compression\<close>






subsection \<open>Payload behind a command\<close>

lemma Read_loop_payload:
  assumes "plain r" and "stream r = escape S" and "n < length data"
  shows "\<exists>m r'. Read_loop Z r data n =
             Some (n + m, if n = 0 \<and> S = [] then Some EOF else None,
                   take n data @ take m S @ drop (n + m) data, r') \<and>
           m \<le> length S \<and> (0 < n \<or> S = [] \<or> 0 < m) \<and>
           plain r' \<and> stream r' = escape (drop m S) \<and> same_writes r r'"
proof (cases "n = 0 \<and> S = []")
  case True
  with assms have s: "stream r = []" by simp
  have "Read_loop Z r data n = Some (n, Some EOF, data, r)"
    using assms(3) True ReadByte_eof [OF assms(1) s]
    by (intro iter_ReadByte_error) simp_all
  with True assms(1) s show ?thesis
    by (intro exI [of _ 0] exI [of _ r]) simp
next
  case False
  then have "0 < n \<or> S \<noteq> []" by auto
  from Read_loop_unescape [OF assms(1,2) _ this, of data Z] assms(3) obtain m r' where
    m: "Read_loop Z r data n = Some (n + m, None, take n data @ take m S @ drop (n + m) data, r')"
      "m \<le> length S" "0 < n + m \<or> data = []" "plain r'" "stream r' = escape (drop m S)"
      "same_writes r r'"
    by auto
  from m(3) assms(3) have "0 < n \<or> S = [] \<or> 0 < m" by auto
  with m False show ?thesis
    by (intro exI [of _ m] exI [of _ r']) simp
qed

section \<open>Sub-negotiation followed by payload\<close>

text \<open>
  C1. The claim: after a sub-negotiation \<open>255, SB, ..., 255, SE\<close> the scan ends and the
  payload behind it is delivered, so decoding \<open>{10, 255,250, 1,2,3, 255,240, 20}\<close> gives
  \<open>{10, 20}\<close>. The code at that input, the nine bytes arriving in one read of the
  transport and the caller's slice holding nine bytes: only \<open>10\<close> is delivered; the
  scan goes on behind \<open>255, 240\<close>, takes \<open>20\<close> as sub-negotiation payload, and the call
  ends with count 1 and \<open>io.EOF\<close> when the transport has nothing more. Nothing is
  written to the transport. This holds whatever the zlib reader's constructor is.
\<close>

theorem Read_after_subnegotiation_swallows_payload:
  "Read Z (newDataReader \<lparr>reads = [([10, 255, 250, 1, 2, 3, 255, 240, 20], None)],
                          writes = [], written = []\<rparr>) (replicate 9 0) =
   Some (1, Some EOF, 10 # replicate 8 0,
         \<lparr>wrapped = \<lparr>reads = [], writes = [], written = []\<rparr>,
          buffered = \<lparr>rd = Wrapped, buf = [], err = None\<rparr>\<rparr>)"
  by code_simp

section \<open>Data and escaped data\<close>

lemma newDataReader_plain:
  assumes "list_all (\<lambda>c. c \<noteq> []) chunks"
  shows "plain (newDataReader \<lparr>reads = map (\<lambda>c. (c, None)) chunks, writes = ws, written = w\<rparr>)"
    and "stream (newDataReader \<lparr>reads = map (\<lambda>c. (c, None)) chunks, writes = ws, written = w\<rparr>)
         = concat chunks"
  using assms
  by (simp_all add: plain_def stream_def pending_def newDataReader_def bufio_NewReader_def
        list_all_iff comp_def)

text \<open>
  C2. Decoding undoes TELNET escaping. Let \<open>S\<close> be any byte sequence, escaped by
  putting every byte 255 twice, and let the transport deliver the escaped bytes in
  any number of non-empty reads. A caller that reads from a new reader into slices of
  \<open>k > 0\<close> bytes until \<open>Read\<close> returns an error collects exactly \<open>S\<close>, the error is
  \<open>io.EOF\<close>, at most \<open>length S + 1\<close> calls are needed, and nothing is written to the
  transport. In particular \<open>{255,255}\<close> decodes to \<open>{255}\<close>, and
  \<open>{1,55,2,155,3,255,255,4,40,255,255,30,20}\<close> to \<open>{1,55,2,155,3,255,4,40,255,30,20}\<close>.
\<close>

theorem Read_undoes_escaping:
  assumes "list_all (\<lambda>c. c \<noteq> []) chunks" and "concat chunks = escape S"
    and "0 < k" and "length S < fuel"
  shows "\<exists>r'. ReadAll Z k fuel
                (newDataReader \<lparr>reads = map (\<lambda>c. (c, None)) chunks, writes = ws, written = w\<rparr>)
              = Some (S, EOF, r') \<and>
              writes (wrapped r') = ws \<and> written (wrapped r') = w"
proof -
  let ?r = "newDataReader \<lparr>reads = map (\<lambda>c. (c, None)) chunks, writes = ws, written = w\<rparr>"
  have "plain ?r" and "stream ?r = escape S"
    using newDataReader_plain [OF assms(1), of ws w] assms(2) by simp_all
  from ReadAll_unescape [OF this assms(3,4), of Z] obtain r' where
    "ReadAll Z k fuel ?r = Some (S, EOF, r')" and "same_writes ?r r'" by blast
  then show ?thesis by (auto simp: same_writes_def newDataReader_def)
qed

theorem Read_undoes_escaping_witness:
  "\<forall>Z.
     (\<exists>r'. ReadAll Z 8 2
             (newDataReader \<lparr>reads = map (\<lambda>c. (c, None)) [[255, 255]], writes = [],
                             written = []\<rparr>)
           = Some ([255], EOF, r') \<and>
           writes (wrapped r') = [] \<and> written (wrapped r') = []) \<and>
     (\<exists>r'. ReadAll Z 8 12
             (newDataReader
                \<lparr>reads = map (\<lambda>c. (c, None))
                           [[1, 55, 2, 155, 3, 255], [255, 4, 40, 255, 255, 30, 20]],
                 writes = [], written = []\<rparr>)
           = Some ([1, 55, 2, 155, 3, 255, 4, 40, 255, 30, 20], EOF, r') \<and>
           writes (wrapped r') = [] \<and> written (wrapped r') = [])"
proof (intro allI conjI)
  fix Z
  show "\<exists>r'. ReadAll Z 8 2
             (newDataReader \<lparr>reads = map (\<lambda>c. (c, None)) [[255, 255]], writes = [],
                             written = []\<rparr>)
           = Some ([255], EOF, r') \<and>
           writes (wrapped r') = [] \<and> written (wrapped r') = []"
    by (rule Read_undoes_escaping) (simp_all add: IAC_def)
  show "\<exists>r'. ReadAll Z 8 12
             (newDataReader
                \<lparr>reads = map (\<lambda>c. (c, None))
                           [[1, 55, 2, 155, 3, 255], [255, 4, 40, 255, 255, 30, 20]],
                 writes = [], written = []\<rparr>)
           = Some ([1, 55, 2, 155, 3, 255, 4, 40, 255, 30, 20], EOF, r') \<and>
           writes (wrapped r') = [] \<and> written (wrapped r') = []"
    by (rule Read_undoes_escaping) (simp_all add: IAC_def)
qed

section \<open>Option negotiation\<close>

text \<open>
  C3. An offer \<open>255, WILL, opt\<close> or \<open>255, WONT, opt\<close> at the head of a plain stream,
  with payload \<open>S\<close> (escaped) behind it and the transport accepting the next write. The
  call returns with a count that has grown by \<open>m\<close>, the slice holding the first \<open>m\<close>
  bytes of \<open>S\<close> behind what it held before, and the stream standing behind them: the
  three bytes of the offer are consumed and none of them reaches the output. Exactly
  one reply of three bytes has been added to what was written, \<open>{255, DO, 86}\<close> when
  \<open>opt\<close> is 86 and \<open>{255, DONT, opt}\<close> otherwise; it depends on \<open>opt\<close> alone, whatever
  was offered or written before. The call ends without error, or with \<open>io.EOF\<close> when
  nothing was delivered and nothing follows the offer. (The loop reads the offer when
  it has not yet delivered a byte or a byte is buffered.)
\<close>

theorem WILL_WONT_answered:
  assumes "plain r" and "stream r = IAC # c # opt # escape S" and "c = WILL \<or> c = WONT"
    and "writes (wrapped r) = [] \<or> hd (writes (wrapped r)) = None"
    and "n < length data" and "n = 0 \<or> buf (buffered r) \<noteq> []"
  shows "\<exists>m r'. Read_loop Z r data n =
             Some (n + m, if n = 0 \<and> S = [] then Some EOF else None,
                   take n data @ take m S @ drop (n + m) data, r') \<and>
           m \<le> length S \<and> (0 < n \<or> S = [] \<or> 0 < m) \<and>
           plain r' \<and> stream r' = escape (drop m S) \<and>
           written (wrapped r') =
             written (wrapped r) @ [IAC, if opt = OPT_COMPRESS2 then DO else DONT, opt] \<and>
           writes (wrapped r') = tl (writes (wrapped r))"
proof -
  from step_WILL_WONT [OF assms, of Z] obtain r1 where
    r1: "Read_loop Z r data n = Read_loop Z r1 data n" "plain r1" "stream r1 = escape S"
      "written (wrapped r1) =
         written (wrapped r) @ [IAC, if opt = OPT_COMPRESS2 then DO else DONT, opt]"
      "writes (wrapped r1) = tl (writes (wrapped r))" by blast
  from Read_loop_payload [OF r1(2,3) assms(5), of Z] obtain m r' where
    "Read_loop Z r1 data n =
       Some (n + m, if n = 0 \<and> S = [] then Some EOF else None,
             take n data @ take m S @ drop (n + m) data, r')"
    "m \<le> length S" "0 < n \<or> S = [] \<or> 0 < m" "plain r'" "stream r' = escape (drop m S)"
    "same_writes r1 r'" by blast
  with r1(1,4,5) show ?thesis
    by (intro exI [of _ m] exI [of _ r']) (auto simp: same_writes_def)
qed

theorem WILL_WONT_answered_witness:
  "\<forall>Z. (\<exists>r'. Read_loop Z
              (newDataReader \<lparr>reads = [([255, 251, 86, 66], None)], writes = [],
                              written = [9]\<rparr>) [0, 0] 0 =
             Some (1, None, [66, 0], r') \<and>
           plain r' \<and> stream r' = [] \<and>
           written (wrapped r') = [9, 255, 253, 86] \<and> writes (wrapped r') = []) \<and>
        Read Z
          (newDataReader \<lparr>reads = [([255, 251, 86, 255, 252, 1, 255, 251, 86], None)],
                          writes = [], written = []\<rparr>) [0] =
        Some (0, Some EOF, [0],
              \<lparr>wrapped = \<lparr>reads = [], writes = [],
                          written = [255, 253, 86, 255, 254, 1, 255, 253, 86]\<rparr>,
               buffered = \<lparr>rd = Wrapped, buf = [], err = None\<rparr>\<rparr>)"
proof (intro allI conjI)
  fix Z
  let ?r = "newDataReader \<lparr>reads = [([255, 251, 86, 66], None)], writes = [], written = [9]\<rparr>"
  have "plain ?r" and "stream ?r = IAC # WILL # OPT_COMPRESS2 # escape [66]"
    by (simp_all add: plain_def stream_def pending_def newDataReader_def bufio_NewReader_def
          wire_defs)
  from WILL_WONT_answered [OF this, where n = 0 and data = "[0, 0]" and Z = Z]
  obtain m r' where h:
    "Read_loop Z ?r [0, 0] 0 = Some (m, None, take m [66] @ drop m [0, 0], r')"
    "m \<le> 1" "0 < m" "plain r'" "stream r' = escape (drop m [66])"
    "written (wrapped r') = [9, 255, 253, 86]" "writes (wrapped r') = []"
    by (auto simp: newDataReader_def wire_defs)
  from h(2,3) have "m = 1" by simp
  with h show "\<exists>r'. Read_loop Z ?r [0, 0] 0 = Some (1, None, [66, 0], r') \<and>
           plain r' \<and> stream r' = [] \<and>
           written (wrapped r') = [9, 255, 253, 86] \<and> writes (wrapped r') = []"
    by auto
  show "Read Z
          (newDataReader \<lparr>reads = [([255, 251, 86, 255, 252, 1, 255, 251, 86], None)],
                          writes = [], written = []\<rparr>) [0] =
        Some (0, Some EOF, [0],
              \<lparr>wrapped = \<lparr>reads = [], writes = [],
                          written = [255, 253, 86, 255, 254, 1, 255, 253, 86]\<rparr>,
               buffered = \<lparr>rd = Wrapped, buf = [], err = None\<rparr>\<rparr>)"
    by code_simp
qed

text \<open>
  C5. A request \<open>255, DO, opt\<close> or \<open>255, DONT, opt\<close> at the head of a plain stream,
  with payload \<open>S\<close> (escaped) behind it. The call returns with a count that has grown
  by \<open>m\<close>, the slice holding the first \<open>m\<close> bytes of \<open>S\<close> behind what it held before,
  and the stream standing behind them: the command byte and the option byte are
  consumed, neither reaches the output, and nothing has been written to the
  transport.
\<close>

theorem DO_DONT_consumed:
  assumes "plain r" and "stream r = IAC # c # opt # escape S" and "c = DO \<or> c = DONT"
    and "n < length data" and "n = 0 \<or> buf (buffered r) \<noteq> []"
  shows "\<exists>m r'. Read_loop Z r data n =
             Some (n + m, if n = 0 \<and> S = [] then Some EOF else None,
                   take n data @ take m S @ drop (n + m) data, r') \<and>
           m \<le> length S \<and> (0 < n \<or> S = [] \<or> 0 < m) \<and>
           plain r' \<and> stream r' = escape (drop m S) \<and> same_writes r r'"
proof -
  from step_DO_DONT [OF assms, of Z] obtain r1 where
    r1: "Read_loop Z r data n = Read_loop Z r1 data n" "plain r1" "stream r1 = escape S"
      "same_writes r r1" by blast
  from Read_loop_payload [OF r1(2,3) assms(4), of Z] obtain m r' where
    "Read_loop Z r1 data n =
       Some (n + m, if n = 0 \<and> S = [] then Some EOF else None,
             take n data @ take m S @ drop (n + m) data, r')"
    "m \<le> length S" "0 < n \<or> S = [] \<or> 0 < m" "plain r'" "stream r' = escape (drop m S)"
    "same_writes r1 r'" by blast
  with r1(1,4) show ?thesis
    by (intro exI [of _ m] exI [of _ r']) (auto intro: same_writes_trans)
qed

theorem DO_DONT_consumed_witness:
  "\<forall>Z. (\<exists>r'. Read_loop Z
              (newDataReader \<lparr>reads = [([255, 253], None), ([1, 65], None)], writes = [],
                              written = [9]\<rparr>) [0, 0] 0 =
             Some (1, None, [65, 0], r') \<and>
           plain r' \<and> stream r' = [] \<and>
           writes (wrapped r') = [] \<and> written (wrapped r') = [9]) \<and>
        Read Z
          (newDataReader \<lparr>reads = [([255, 253], None), ([1, 65], None)], writes = [],
                          written = []\<rparr>) [0, 0] =
        Some (1, None, [65, 0],
              \<lparr>wrapped = \<lparr>reads = [], writes = [], written = []\<rparr>,
               buffered = \<lparr>rd = Wrapped, buf = [], err = None\<rparr>\<rparr>)"
proof (intro allI conjI)
  fix Z
  let ?r = "newDataReader \<lparr>reads = [([255, 253], None), ([1, 65], None)], writes = [],
                           written = [9]\<rparr>"
  have "plain ?r" and "stream ?r = IAC # DO # 1 # escape [65]"
    by (simp_all add: plain_def stream_def pending_def newDataReader_def bufio_NewReader_def
          wire_defs)
  from DO_DONT_consumed [OF this, where n = 0 and data = "[0, 0]" and Z = Z]
  obtain m r' where h:
    "Read_loop Z ?r [0, 0] 0 = Some (m, None, take m [65] @ drop m [0, 0], r')"
    "m \<le> 1" "0 < m" "plain r'" "stream r' = escape (drop m [65])"
    "writes (wrapped r') = []" "written (wrapped r') = [9]"
    by (auto simp: newDataReader_def same_writes_def)
  from h(2,3) have "m = 1" by simp
  with h show "\<exists>r'. Read_loop Z ?r [0, 0] 0 = Some (1, None, [65, 0], r') \<and>
           plain r' \<and> stream r' = [] \<and>
           writes (wrapped r') = [] \<and> written (wrapped r') = [9]"
    by auto
  show "Read Z
          (newDataReader \<lparr>reads = [([255, 253], None), ([1, 65], None)], writes = [],
                          written = []\<rparr>) [0, 0] =
        Some (1, None, [65, 0],
              \<lparr>wrapped = \<lparr>reads = [], writes = [], written = []\<rparr>,
               buffered = \<lparr>rd = Wrapped, buf = [], err = None\<rparr>\<rparr>)"
    by code_simp
qed

section \<open>Errors\<close>

text \<open>
  C4. A byte 255 at the head of a plain stream, followed by a byte that is none of
  \<open>DO\<close>, \<open>DONT\<close>, \<open>WILL\<close>, \<open>WONT\<close>, \<open>IAC\<close>, \<open>SB\<close>, \<open>SE\<close>, \<open>GA\<close>, read by the main loop: the
  call returns \<open>errCorrupted\<close>, which is none of the errors of the transport or of the
  buffered reader, with the count as it was and the slice unchanged; nothing is
  written to the transport, and the offending byte stays unread.
\<close>

theorem corrupted_stream_error:
  assumes "plain r" and "stream r = IAC # x # s"
    and "x \<notin> {DO, DONT, WILL, WONT, IAC, SB, SE, GA}"
    and "n < length data" and "n = 0 \<or> buf (buffered r) \<noteq> []"
  shows "\<exists>r'. Read_loop Z r data n = Some (n, Some errCorrupted, data, r') \<and>
              plain r' \<and> stream r' = x # s \<and> same_writes r r' \<and>
              errCorrupted \<noteq> EOF \<and> errCorrupted \<noteq> ErrNoProgress \<and> errCorrupted \<noteq> IOError m"
  using step_corrupted [OF assms, of Z] by simp

theorem corrupted_stream_error_witness:
  "\<forall>Z. \<exists>r'. Read_loop Z
          \<lparr>wrapped = \<lparr>reads = [([241, 66], None)], writes = [], written = []\<rparr>,
           buffered = \<lparr>rd = Wrapped, buf = [255], err = None\<rparr>\<rparr> [65, 0] 1
        = Some (1, Some errCorrupted, [65, 0], r') \<and> stream r' = [241, 66] \<and>
        written (wrapped r') = []"
proof
  fix Z
  let ?r = "\<lparr>wrapped = \<lparr>reads = [([241, 66], None)], writes = [], written = []\<rparr>,
             buffered = \<lparr>rd = Wrapped, buf = [255], err = None\<rparr>\<rparr>"
  have "plain ?r" and "stream ?r = IAC # 241 # [66]"
    by (simp_all add: plain_def stream_def pending_def wire_defs)
  from corrupted_stream_error
    [OF this, where n = 1 and data = "[65, 0]" and Z = Z]
  show "\<exists>r'. Read_loop Z ?r [65, 0] 1 = Some (1, Some errCorrupted, [65, 0], r') \<and>
          stream r' = [241, 66] \<and> written (wrapped r') = []"
    by (auto simp: wire_defs same_writes_def)
qed



section \<open>Partial availability\<close>






section \<open>The caller's slice\<close>

text \<open>
  C10. \<open>Read\<close> never writes past the slice it is given: when it returns, the count
  \<open>n\<close> is at most the length of the slice, the slice has kept its length, and it is
  unchanged from position \<open>n\<close> on. With an empty slice \<open>Read\<close> returns \<open>(0, nil)\<close> and
  the reader as it was: no byte of the source is consumed.
\<close>

theorem Read_stays_within_slice:
  "(Read Z r data = Some (n, e, d, r') \<longrightarrow>
      n \<le> length data \<and> length d = length data \<and> drop n d = drop n data) \<and>
   Read Z r [] = Some (0, None, [], r)"
proof (rule conjI)
  have "within 0 data (Read Z r data)"
    unfolding Read_def by (rule Read_loop_within) simp
  then show "Read Z r data = Some (n, e, d, r') \<longrightarrow>
      n \<le> length data \<and> length d = length data \<and> drop n d = drop n data"
    by (auto simp: within_def)
  show "Read Z r [] = Some (0, None, [], r)"
    unfolding Read_def by (subst Read_loop.simps) simp
qed

theorem Read_stays_within_slice_witness:
  "\<forall>Z.
   Read Z
     (newDataReader \<lparr>reads = [([97, 98, 99], None)], writes = [], written = []\<rparr>) [7, 7, 7, 7] =
   Some (3, None, [97, 98, 99, 7],
         \<lparr>wrapped = \<lparr>reads = [], writes = [], written = []\<rparr>,
          buffered = \<lparr>rd = Wrapped, buf = [], err = None\<rparr>\<rparr>) \<and>
   (3::nat) \<le> length [7, 7, 7, 7 :: byte] \<and>
   length [97, 98, 99, 7 :: byte] = length [7, 7, 7, 7 :: byte] \<and>
   drop 3 [97, 98, 99, 7 :: byte] = drop 3 [7, 7, 7, 7] \<and>
   Read Z
     (newDataReader \<lparr>reads = [([97, 98, 99], None)], writes = [], written = []\<rparr>) [] =
   Some (0, None, [],
         newDataReader \<lparr>reads = [([97, 98, 99], None)], writes = [], written = []\<rparr>)"
proof
  fix Z
  let ?r = "newDataReader \<lparr>reads = [([97, 98, 99], None)], writes = [], written = []\<rparr>"
  let ?r' = "\<lparr>wrapped = \<lparr>reads = [], writes = [], written = []\<rparr>,
              buffered = \<lparr>rd = Wrapped, buf = [], err = None\<rparr>\<rparr>"
  have h: "Read Z ?r [7, 7, 7, 7] = Some (3, None, [97, 98, 99, 7], ?r')"
    by code_simp
  from Read_stays_within_slice [of Z ?r "[7, 7, 7, 7]" 3 None "[97, 98, 99, 7]" ?r'] h
  show "Read Z ?r [7, 7, 7, 7] = Some (3, None, [97, 98, 99, 7], ?r') \<and>
   (3::nat) \<le> length [7, 7, 7, 7 :: byte] \<and>
   length [97, 98, 99, 7 :: byte] = length [7, 7, 7, 7 :: byte] \<and>
   drop 3 [97, 98, 99, 7 :: byte] = drop 3 [7, 7, 7, 7] \<and>
   Read Z ?r [] = Some (0, None, [], ?r)"
    by simp
qed

section \<open>The announcement of compression\<close>




text \<open>
  C9. The claim: the swap of the source loses no byte, those in the old buffered
  reader included. The code, when the transport delivers the announcement
  \<open>255, SB, 86, 255, SE\<close> and the first bytes \<open>7, 8, 9\<close> of the compressed stream in one
  read, and \<open>10, 11\<close> in the next: the constructor of the zlib reader is given the
  transport with \<open>10, 11\<close> pending only. The bytes \<open>7, 8, 9\<close> stay in the old buffered
  reader; when the constructor succeeds, the new buffered reader replaces the old one
  and they are gone. This holds for every constructor \<open>Z\<close>.
\<close>

theorem handoff_drops_buffered_bytes:
  "Read Z
     (newDataReader \<lparr>reads = [([255, 250, 86, 255, 240, 7, 8, 9], None), ([10, 11], None)],
                     writes = [], written = []\<rparr>) [0, 0, 0, 0] =
   (case Z [([10, 11], None)] of
      (Inl e, raw) \<Rightarrow>
        Some (0, Some e, [0, 0, 0, 0],
              \<lparr>wrapped = \<lparr>reads = raw, writes = [], written = []\<rparr>,
               buffered = \<lparr>rd = Wrapped, buf = [7, 8, 9], err = None\<rparr>\<rparr>)
    | (Inr zReader, raw) \<Rightarrow>
        (case SB_scan Z \<lparr>wrapped = \<lparr>reads = raw, writes = [], written = []\<rparr>,
                         buffered = \<lparr>rd = ZReader zReader, buf = [], err = None\<rparr>\<rparr> of
           None \<Rightarrow> None
         | Some (e, r') \<Rightarrow> Some (0, Some e, [0, 0, 0, 0], r')))"
  apply code_simp
  apply (simp add: bufio_NewReader_def split: prod.splits sum.splits)
  done

end
